theory Spec2Isabelle
  imports
    Main
    "HOL-Library.Finite_Map"
    "HOL-Library.Char_ord"
    "HOL-Library.List_Lexorder"
begin

section \<open>Path strings\<close>

text \<open>
  The cache runs on POSIX paths. \<open>path.join\<close> with two arguments follows
  \<open>posixpath.join\<close>: an absolute second component replaces the first, an empty first
  component or one ending in a separator is extended directly, and otherwise a separator
  is put in between.
\<close>

definition startswith :: "string \<Rightarrow> string \<Rightarrow> bool" where
  "startswith s p = (take (length p) s = p)"

definition endswith :: "string \<Rightarrow> string \<Rightarrow> bool" where
  "endswith s p = (length p \<le> length s \<and> drop (length s - length p) s = p)"

definition path_join :: "string \<Rightarrow> string \<Rightarrow> string" where
  "path_join a b =
     (if startswith b ''/'' then b
      else if a = [] \<or> endswith a ''/'' then a @ b
      else a @ ''/'' @ b)"

text \<open>
  \<open>str.rfind\<close> for a one-character needle: the index of the last occurrence, or \<open>-1\<close>.
\<close>

definition rfind :: "string \<Rightarrow> char \<Rightarrow> int" where
  "rfind s c =
     (if c \<in> set s
      then int (length s) - 1 - int (length (takeWhile (\<lambda>x. x \<noteq> c) (rev s)))
      else - 1)"

text \<open>
  \<open>path.splitext\<close> (\<open>genericpath._splitext\<close> with separator \<open>/\<close> and extension
  separator \<open>.\<close>): the extension starts at the last dot, provided that dot comes after
  the last separator and some character between the separator and the dot is not a dot
  (leading dots of a file name do not start an extension).
\<close>

definition splitext :: "string \<Rightarrow> string \<times> string" where
  "splitext p =
     (let sepIndex = rfind p CHR ''/'';
          dotIndex = rfind p CHR ''.''
      in if dotIndex > sepIndex \<and>
            list_ex (\<lambda>c. c \<noteq> CHR ''.'')
              (take (nat (dotIndex - (sepIndex + 1))) (drop (nat (sepIndex + 1)) p))
         then (take (nat dotIndex) p, drop (nat dotIndex) p)
         else (p, []))"

text \<open>
  Decimal rendering of a non-negative integer, as \<open>str\<close> and f-strings give it.
  \<open>digit_char\<close> is only ever applied to a number below ten.
\<close>

definition digit_char :: "nat \<Rightarrow> char" where
  "digit_char n = ''0123456789'' ! n"

function str_nat :: "nat \<Rightarrow> string" where
  "str_nat n =
     (if n < 10 then [digit_char n] else str_nat (n div 10) @ [digit_char (n mod 10)])"
  by pat_completeness auto
termination
  by (relation "measure id") auto

declare str_nat.simps [simp del]

section \<open>The file system\<close>

text \<open>
  A file system is a finite map from path strings to nodes. A path string is taken as
  the identity of the file it names: two strings name the same node exactly when they are
  equal (no \<open>.\<close> or \<open>..\<close> segments, repeated separators or symbolic links). The entries
  below a directory \<open>d\<close> are the paths that extend \<open>d\<close> by a separator. The map is
  not required to hold the directory of every path in it; writing a file does not look
  for its directory, and permissions are not modelled.
\<close>

datatype node = File string | Dir

type_synonym filesystem = "(string, node) fmap"

datatype os_error =
    FileNotFoundError string
  | FileExistsError string
  | IsADirectoryError string
  | NotADirectoryError string
  | SameFileError string
  | ShutilError string

definition path_exists :: "filesystem \<Rightarrow> string \<Rightarrow> bool" where
  "path_exists fs p = (fmlookup fs p \<noteq> None)"

definition is_file :: "filesystem \<Rightarrow> string \<Rightarrow> bool" where
  "is_file fs p = (case fmlookup fs p of Some (File _) \<Rightarrow> True | _ \<Rightarrow> False)"

definition is_dir :: "filesystem \<Rightarrow> string \<Rightarrow> bool" where
  "is_dir fs p = (fmlookup fs p = Some Dir)"

text \<open>\<open>path.exists\<close> of a stored name inside a folder.\<close>

definition file_name_exists :: "filesystem \<Rightarrow> string \<Rightarrow> string \<Rightarrow> bool" where
  "file_name_exists fs folder file_name = path_exists fs (path_join folder file_name)"


text \<open>
  \<open>shutil.copyfile\<close>: source and destination must differ, the source must be a regular
  file and the destination must not be a directory; the destination then holds the
  source's content.
\<close>

definition shutil_copyfile :: "filesystem \<Rightarrow> string \<Rightarrow> string \<Rightarrow> os_error + filesystem" where
  "shutil_copyfile fs src dst =
     (if src = dst then Inl (SameFileError src)
      else case fmlookup fs src of
        None \<Rightarrow> Inl (FileNotFoundError src)
      | Some Dir \<Rightarrow> Inl (IsADirectoryError src)
      | Some (File content) \<Rightarrow>
          (case fmlookup fs dst of
             Some Dir \<Rightarrow> Inl (IsADirectoryError dst)
           | _ \<Rightarrow> Inr (fmupd dst (File content) fs)))"

text \<open>
  \<open>inside d p\<close>: the path \<open>p\<close> is \<open>d\<close> itself or lies below the directory \<open>d\<close>.
  \<open>os.rename\<close> of a node moves everything inside the source to the same place
  inside the destination.
\<close>

definition inside :: "string \<Rightarrow> string \<Rightarrow> bool" where
  "inside d p = (p = d \<or> startswith p (d @ ''/''))"

definition rename_map :: "string \<Rightarrow> string \<Rightarrow> (string \<rightharpoonup> node) \<Rightarrow> (string \<rightharpoonup> node)" where
  "rename_map src dst m =
     (\<lambda>p. if inside src p then None
          else if inside dst p then m (src @ drop (length dst) p)
          else m p)"

lemma rename_map_finite: "finite (dom m) \<Longrightarrow> finite (dom (rename_map src dst m))"
proof -
  assume fin: "finite (dom m)"
  have "dom (rename_map src dst m) \<subseteq> dom m \<union> (\<lambda>q. dst @ drop (length src) q) ` dom m"
  proof
    fix p assume "p \<in> dom (rename_map src dst m)"
    then obtain n where n: "rename_map src dst m p = Some n" by auto
    show "p \<in> dom m \<union> (\<lambda>q. dst @ drop (length src) q) ` dom m"
    proof (cases "inside dst p")
      case True
      then have pre: "dst @ drop (length dst) p = p"
        by (auto simp: inside_def startswith_def)
           (metis append_take_drop_id append_eq_append_conv append.assoc length_append take_all_iff
              append_eq_conv_conj take_append)
      from True n have "src @ drop (length dst) p \<in> dom m"
        by (auto simp: rename_map_def split: if_splits)
      moreover have "dst @ drop (length src) (src @ drop (length dst) p) = p"
        using pre by simp
      ultimately show ?thesis by (metis UnI2 image_eqI)
    next
      case False
      with n show ?thesis by (auto simp: rename_map_def split: if_splits)
    qed
  qed
  with fin show ?thesis by (meson finite_UnI finite_imageI finite_subset)
qed

setup_lifting type_definition_fmap

lift_definition os_rename :: "string \<Rightarrow> string \<Rightarrow> filesystem \<Rightarrow> filesystem"
  is rename_map
  by (rule rename_map_finite)

text \<open>
  \<open>shutil._basename\<close>: trailing separators are dropped, then everything up to the last
  separator.
\<close>

definition rstrip_sep :: "string \<Rightarrow> string" where
  "rstrip_sep p = rev (dropWhile (\<lambda>c. c = CHR ''/'') (rev p))"

definition basename :: "string \<Rightarrow> string" where
  "basename p = (let q = rstrip_sep p in drop (nat (rfind q CHR ''/'' + 1)) q)"

text \<open>
  \<open>shutil.move\<close>. A destination that is an existing directory receives the source under
  its base name, unless a node of that name is already there. A regular file is renamed
  onto the destination, replacing a regular file already there. A directory is renamed
  with all it holds, and cannot be moved into itself or onto an existing file.
\<close>

definition shutil_move :: "filesystem \<Rightarrow> string \<Rightarrow> string \<Rightarrow> os_error + filesystem" where
  "shutil_move fs src dst =
     (if is_dir fs dst \<and> src = dst then Inr fs
      else
        let real_dst = (if is_dir fs dst then path_join dst (basename src) else dst)
        in if is_dir fs dst \<and> path_exists fs real_dst then Inl (ShutilError real_dst)
           else case fmlookup fs src of
             None \<Rightarrow> Inl (FileNotFoundError src)
           | Some (File content) \<Rightarrow> Inr (fmupd real_dst (File content) (fmdrop src fs))
           | Some Dir \<Rightarrow>
               if inside src real_dst then Inl (ShutilError src)
               else if path_exists fs real_dst then Inl (FileExistsError real_dst)
               else Inr (os_rename src real_dst fs))"






section \<open>Timestamps\<close>

text \<open>
  A \<open>datetime\<close> with its calendar fields. \<open>utcoffset\<close> is the offset from UTC in
  microseconds, \<open>None\<close> for a naive value.
\<close>

record datetime =
  year :: nat
  month :: nat
  day :: nat
  hour :: nat
  minute :: nat
  second :: nat
  microsecond :: nat
  utcoffset :: "int option"

text \<open>\<open>'%0wd' % n\<close>: decimal, filled with zeros on the left up to width \<open>w\<close>.\<close>

definition zfill :: "nat \<Rightarrow> nat \<Rightarrow> string" where
  "zfill w n = replicate (w - length (str_nat n)) CHR ''0'' @ str_nat n"

text \<open>
  The \<open>%z\<close> directive as \<open>datetime.strftime\<close> expands it: empty for a naive value,
  otherwise sign, hours and minutes, followed by seconds and microseconds only when
  the offset has them.
\<close>

definition strftime_z :: "int option \<Rightarrow> string" where
  "strftime_z off =
     (case off of
        None \<Rightarrow> []
      | Some offset \<Rightarrow>
          let sign = (if offset < 0 then CHR ''-'' else CHR ''+'');
              a = nat \<bar>offset\<bar>;
              h = a div 3600000000;
              rest = a mod 3600000000;
              m = rest div 60000000;
              rest' = rest mod 60000000;
              s = rest' div 1000000;
              u = rest' mod 1000000
          in if u \<noteq> 0 then sign # zfill 2 h @ zfill 2 m @ zfill 2 s @ ''.'' @ zfill 6 u
             else if s \<noteq> 0 then sign # zfill 2 h @ zfill 2 m @ zfill 2 s
             else sign # zfill 2 h @ zfill 2 m)"

text \<open>
  \<open>datetime.strftime(dt, "%Y-%m-%dT%H:%M:%S%z")\<close>. The year is rendered with four
  digits, as Python documents \<open>%Y\<close>; where the platform's C library leaves years
  below 1000 unpadded this differs, and the results on order take years from 1000.
\<close>

definition strftime :: "datetime \<Rightarrow> string" where
  "strftime dt =
     zfill 4 (year dt) @ ''-'' @ zfill 2 (month dt) @ ''-'' @ zfill 2 (day dt) @ ''T'' @
     zfill 2 (hour dt) @ '':'' @ zfill 2 (minute dt) @ '':'' @ zfill 2 (second dt) @
     strftime_z (utcoffset dt)"

text \<open>
  \<open>format_as_timestamp\<close>: a colon goes in front of the last two characters of the
  formatted text (\<open>text[:-2]\<close> and \<open>text[-2:]\<close>).
\<close>

definition format_as_timestamp :: "datetime \<Rightarrow> string" where
  "format_as_timestamp dt =
     (let text = strftime dt
      in take (length text - 2) text @ '':'' @ drop (length text - 2) text)"

section \<open>The metadata store\<close>

text \<open>
  A row of the cache table, and the database as its catalog: a map from table names to
  the rows of each table, in insertion order. A database file that does not exist yet
  opens as the empty catalog. A table name is taken to be a plain SQL identifier, so
  that the name in the catalog is the name the statements were given.
\<close>

record entry =
  key :: string
  file_name :: string
  timestamp :: string

type_synonym database = "string \<rightharpoonup> entry list"

datatype db_error = NoSuchTable string | IntegrityError string

datatype error = DuplicateKey string | OsError os_error | DbError db_error

text \<open>\<open>insert into t values (?, ?, ?)\<close> under the primary key on \<open>key\<close>.\<close>

definition db_insert :: "entry list \<Rightarrow> entry \<Rightarrow> db_error + entry list" where
  "db_insert rows r =
     (if list_ex (\<lambda>x. key x = key r) rows then Inl (IntegrityError (key r))
      else Inr (rows @ [r]))"

section \<open>The cache\<close>

text \<open>
  The world a cache works on: the file system, and the database behind the connection.
  A \<open>cache\<close> holds the constructor's arguments. Every operation takes the world and
  returns its outcome together with the world it leaves; an exception is an \<open>Inl\<close>
  outcome. The lock makes each mutating operation one step, which is how it is modelled.
\<close>

record world =
  files :: filesystem
  store :: database

record cache =
  db_file_name :: string
  table_name :: string
  folder_path :: string

definition getNewName :: "string \<Rightarrow> string \<Rightarrow> nat \<Rightarrow> string" where
  "getNewName base ext counter = base @ '' ('' @ str_nat counter @ '')'' @ ext"


text \<open>
  The probing loop of \<open>_get_unique_file_name\<close> ends because the candidate names for
  different counters are different paths, and only finitely many paths exist.
\<close>

lemma digit_char_inj: "a < 10 \<Longrightarrow> b < 10 \<Longrightarrow> digit_char a = digit_char b \<Longrightarrow> a = b"
proof -
  assume "a < 10" "b < 10" "digit_char a = digit_char b"
  moreover have "distinct ''0123456789''" by simp
  ultimately show ?thesis
    unfolding digit_char_def by (simp add: nth_eq_iff_index_eq)
qed

lemma str_nat_small: "n < 10 \<Longrightarrow> str_nat n = [digit_char n]"
  by (subst str_nat.simps) simp

lemma str_nat_large:
  "\<not> n < 10 \<Longrightarrow> str_nat n = str_nat (n div 10) @ [digit_char (n mod 10)]"
  by (subst str_nat.simps) simp

lemma str_nat_nonempty: "str_nat n \<noteq> []"
  by (subst str_nat.simps) simp

lemma str_nat_inj: "str_nat a = str_nat b \<Longrightarrow> a = b"
proof (induction a arbitrary: b rule: str_nat.induct)
  case (1 n)
  show ?case
  proof (cases "n < 10")
    case True
    note sn = str_nat_small [OF True]
    show ?thesis
    proof (cases "b < 10")
      case True
      from str_nat_small [OF True] sn "1.prems" have "digit_char n = digit_char b"
        by simp
      with \<open>n < 10\<close> True show ?thesis
        by (rule digit_char_inj)
    next
      case False
      from str_nat_large [OF False] sn "1.prems" str_nat_nonempty [of "b div 10"]
      show ?thesis by simp
    qed
  next
    case False
    note sn = str_nat_large [OF False]
    show ?thesis
    proof (cases "b < 10")
      case True
      from str_nat_small [OF True] sn "1.prems" str_nat_nonempty [of "n div 10"]
      show ?thesis by simp
    next
      case bf: False
      note sb = str_nat_large [OF bf]
      from sn sb "1.prems" have e1: "str_nat (n div 10) = str_nat (b div 10)"
        and e2: "digit_char (n mod 10) = digit_char (b mod 10)" by simp_all
      from "1.IH" [OF False e1] have d: "n div 10 = b div 10" .
      have "n mod 10 < 10" "b mod 10 < 10" by simp_all
      then have m: "n mod 10 = b mod 10" using e2 by (rule digit_char_inj)
      from d m show ?thesis by (metis div_mult_mod_eq)
    qed
  qed
qed

lemma path_join_append_inj:
  "path_join folder (base @ x) = path_join folder (base @ y) \<Longrightarrow>
   x \<noteq> [] \<Longrightarrow> y \<noteq> [] \<Longrightarrow> hd x = hd y \<Longrightarrow> x = y"
  by (cases base; cases x; cases y) (auto simp: path_join_def startswith_def split: if_splits)

lemma getNewName_inj:
  "path_join folder (getNewName base ext a) = path_join folder (getNewName base ext b) \<Longrightarrow> a = b"
proof -
  assume h: "path_join folder (getNewName base ext a) = path_join folder (getNewName base ext b)"
  have "'' ('' @ str_nat a @ '')'' @ ext = '' ('' @ str_nat b @ '')'' @ ext"
    using h unfolding getNewName_def by (rule path_join_append_inj) simp_all
  then show ?thesis by (auto dest: str_nat_inj)
qed

lemma finite_taken: "finite {n. file_name_exists fs folder (getNewName base ext n)}"
proof -
  let ?f = "\<lambda>n. path_join folder (getNewName base ext n)"
  have "inj ?f" by (rule injI) (rule getNewName_inj)
  have "?f ` {n. file_name_exists fs folder (getNewName base ext n)} \<subseteq> fmdom' fs"
    by (auto simp: file_name_exists_def path_exists_def fmlookup_dom'_iff)
  then have "finite (?f ` {n. file_name_exists fs folder (getNewName base ext n)})"
    by (rule finite_subset) simp
  moreover have "inj_on ?f {n. file_name_exists fs folder (getNewName base ext n)}"
    using \<open>inj ?f\<close> by (rule inj_on_subset) simp
  ultimately show ?thesis
    by (rule finite_imageD)
qed

text \<open>
  The \<open>while\<close> loop of \<open>_get_unique_file_name\<close>: the counter goes up as long as the
  name built from it exists in the folder; the loop's result is the final counter.
\<close>

function probe_counter :: "filesystem \<Rightarrow> string \<Rightarrow> string \<Rightarrow> string \<Rightarrow> nat \<Rightarrow> nat" where
  "probe_counter fs folder base ext counter =
     (if file_name_exists fs folder (getNewName base ext counter)
      then probe_counter fs folder base ext (counter + 1)
      else counter)"
  by pat_completeness auto
termination
proof (relation "measure (\<lambda>(fs, folder, base, ext, counter).
         card {n. counter \<le> n \<and> file_name_exists fs folder (getNewName base ext n)})")
  show "wf (measure (\<lambda>(fs, folder, base, ext, counter).
         card {n. counter \<le> n \<and> file_name_exists fs folder (getNewName base ext n)}))"
    by simp
next
  fix fs folder base ext and counter :: nat
  assume ex: "file_name_exists fs folder (getNewName base ext counter)"
  let ?S = "\<lambda>c. {n. c \<le> n \<and> file_name_exists fs folder (getNewName base ext n)}"
  have fin: "finite (?S counter)"
    by (rule finite_subset [OF _ finite_taken [of fs folder base ext]]) auto
  have "counter \<in> ?S counter" "counter \<notin> ?S (counter + 1)"
    "?S (counter + 1) \<subseteq> ?S counter"
    using ex by auto
  then have "?S (counter + 1) \<subset> ?S counter"
    by blast
  then have "card (?S (counter + 1)) < card (?S counter)"
    using fin by (rule psubset_card_mono [rotated])
  then show "((fs, folder, base, ext, counter + 1), (fs, folder, base, ext, counter))
    \<in> measure (\<lambda>(fs, folder, base, ext, counter).
         card {n. counter \<le> n \<and> file_name_exists fs folder (getNewName base ext n)})"
    by simp
qed

declare probe_counter.simps [simp del]

definition get_unique_file_name :: "cache \<Rightarrow> filesystem \<Rightarrow> string \<Rightarrow> string" where
  "get_unique_file_name c fs target_file_name =
     (if file_name_exists fs (folder_path c) target_file_name
      then
        let (base, ext) = splitext target_file_name;
            counter = probe_counter fs (folder_path c) base ext 2
        in getNewName base ext counter
      else target_file_name)"

text \<open>
  \<open>get_file_path\<close>: the first row selected by key, joined to the folder; \<open>None\<close> when
  no row has the key.
\<close>

definition get_file_path :: "cache \<Rightarrow> world \<Rightarrow> string \<Rightarrow> error + string option" where
  "get_file_path c w k =
     (case store w (table_name c) of
        None \<Rightarrow> Inl (DbError (NoSuchTable (table_name c)))
      | Some rows \<Rightarrow>
          (case filter (\<lambda>r. key r = k) rows of
             [] \<Rightarrow> Inr None
           | row # _ \<Rightarrow> Inr (Some (path_join (folder_path c) (file_name row)))))"

text \<open>
  \<open>add_file\<close>. \<open>now\<close> is the value of \<open>datetime.now().astimezone()\<close> at the call.
\<close>

definition add_file ::
  "cache \<Rightarrow> world \<Rightarrow> string \<Rightarrow> string \<Rightarrow> string \<Rightarrow> bool \<Rightarrow> datetime
   \<Rightarrow> (error + string option) \<times> world" where
  "add_file c w k file_path target_file_name copy_file now =
     (case store w (table_name c) of
        None \<Rightarrow> (Inl (DbError (NoSuchTable (table_name c))), w)
      | Some rows \<Rightarrow>
          if list_ex (\<lambda>r. key r = k) rows then (Inl (DuplicateKey k), w)
          else
            let target_file_name' = get_unique_file_name c (files w) target_file_name;
                target_file_path = path_join (folder_path c) target_file_name'
            in case (if copy_file then shutil_copyfile (files w) file_path target_file_path
                     else shutil_move (files w) file_path target_file_path) of
                 Inl e \<Rightarrow> (Inl (OsError e), w)
               | Inr fs' \<Rightarrow>
                   let w1 = w\<lparr>files := fs'\<rparr>;
                       row = \<lparr>key = k, file_name = target_file_name',
                              timestamp = format_as_timestamp now\<rparr>
                   in case db_insert rows row of
                        Inl e \<Rightarrow> (Inl (DbError e), w1)
                      | Inr rows' \<Rightarrow>
                          let w2 = w1\<lparr>store := (store w1)(table_name c \<mapsto> rows')\<rparr>
                          in (get_file_path c w2 k, w2))"







text \<open>
  The constructor: \<open>_init_db\<close> creates the table when the catalog has none of that
  name, \<open>_init_folder\<close> makes the folder.
\<close>

definition init_db :: "cache \<Rightarrow> world \<Rightarrow> world" where
  "init_db c w =
     (case store w (table_name c) of
        None \<Rightarrow> w\<lparr>store := (store w)(table_name c \<mapsto> [])\<rparr>
      | Some _ \<Rightarrow> w)"




section \<open>Example worlds\<close>

definition demo_cache :: cache where
  "demo_cache =
     \<lparr>db_file_name = ''test.db'', table_name = ''cache'', folder_path = ''cache-files''\<rparr>"

definition two_taken :: filesystem where
  "two_taken =
     fmupd ''cache-files/x (2).txt'' (File ''b'')
       (fmupd ''cache-files/x.txt'' (File ''a'') (fmupd ''cache-files'' Dir fmempty))"

definition demo_now :: datetime where
  "demo_now = \<lparr>year = 2024, month = 3, day = 1, hour = 12, minute = 0, second = 0,
     microsecond = 250000, utcoffset = Some 3600000000\<rparr>"

definition fresh_world :: world where
  "fresh_world =
     \<lparr>files = fmupd ''test-file.txt'' (File ''data'') (fmupd ''cache-files'' Dir fmempty),
      store = [''cache'' \<mapsto> []]\<rparr>"

definition one_cached :: world where
  "one_cached =
     \<lparr>files = fmupd ''cache-files/test-file.txt'' (File ''data'')
        (fmupd ''test-file.txt'' (File ''data'') (fmupd ''cache-files'' Dir fmempty)),
      store = [''cache'' \<mapsto>
        [\<lparr>key = ''1234'', file_name = ''test-file.txt'',
          timestamp = ''2024-03-01T12:00:00+01:00''\<rparr>]]\<rparr>"

lemma demo_timestamp: "format_as_timestamp demo_now = ''2024-03-01T12:00:00+01:00''"
  by (simp add: format_as_timestamp_def strftime_def strftime_z_def zfill_def demo_now_def
        str_nat.simps digit_char_def Let_def)

lemmas eval_defs = add_file_def get_file_path_def get_unique_file_name_def file_name_exists_def
  path_exists_def path_join_def startswith_def endswith_def shutil_copyfile_def shutil_move_def
  is_dir_def db_insert_def demo_cache_def fresh_world_def one_cached_def Let_def

section \<open>Collision resolution\<close>

lemma splitext_concat: "splitext p = (base, ext) \<Longrightarrow> base @ ext = p"
  by (auto simp: splitext_def Let_def split: if_splits)

lemma splitext_x_txt: "splitext ''x.txt'' = (''x'', ''.txt'')"
  by (simp add: splitext_def rfind_def Let_def)

lemma str_nat_digits:
  "str_nat 2 = ''2''" "str_nat 3 = ''3''" "str_nat 4 = ''4''"
  by (simp_all add: str_nat_small digit_char_def)

lemma probe_counter_spec:
  "c \<le> probe_counter fs folder base ext c \<and>
   \<not> file_name_exists fs folder (getNewName base ext (probe_counter fs folder base ext c)) \<and>
   (\<forall>j. c \<le> j \<and> j < probe_counter fs folder base ext c \<longrightarrow>
        file_name_exists fs folder (getNewName base ext j))"
proof (induction fs folder base ext c rule: probe_counter.induct)
  case (1 fs folder base ext counter)
  show ?case
  proof (cases "file_name_exists fs folder (getNewName base ext counter)")
    case True
    then have eq: "probe_counter fs folder base ext counter =
        probe_counter fs folder base ext (counter + 1)"
      by (subst probe_counter.simps) simp
    from "1.IH" [OF True] True show ?thesis
      unfolding eq
      by (auto simp: le_Suc_eq Suc_le_eq less_Suc_eq_le) (metis Suc_leI le_neq_implies_less)
  next
    case False
    then have "probe_counter fs folder base ext counter = counter"
      by (subst probe_counter.simps) simp
    with False show ?thesis by auto
  qed
qed

lemma get_unique_file_name_fresh:
  "\<not> path_exists fs (path_join (folder_path c) (get_unique_file_name c fs name))"
proof (cases "file_name_exists fs (folder_path c) name")
  case True
  obtain base ext where sp: "splitext name = (base, ext)" by (cases "splitext name")
  from probe_counter_spec [of 2 fs "folder_path c" base ext] True sp show ?thesis
    by (simp add: get_unique_file_name_def file_name_exists_def)
next
  case False
  then show ?thesis
    by (simp add: get_unique_file_name_def file_name_exists_def)
qed

text \<open>
  C3. With \<open>(base, ext)\<close> the split of the requested name (so \<open>base @ ext\<close> is the
  name): when nothing exists at the name's path in the folder, the name is returned
  unchanged; otherwise the result is \<open>base (i)ext\<close> for the smallest \<open>i \<ge> 2\<close> whose
  path does not exist. Existence is that of the path in the file system; the metadata
  store is not an argument of the resolution at all.
\<close>

theorem get_unique_file_name_first_free:
  "splitext name = (base, ext) \<Longrightarrow>
   base @ ext = name \<and>
   (\<not> path_exists fs (path_join (folder_path c) name) \<longrightarrow>
      get_unique_file_name c fs name = name) \<and>
   (path_exists fs (path_join (folder_path c) name) \<longrightarrow>
      (\<exists>i\<ge>2.
         get_unique_file_name c fs name = base @ '' ('' @ str_nat i @ '')'' @ ext \<and>
         \<not> path_exists fs (path_join (folder_path c) (base @ '' ('' @ str_nat i @ '')'' @ ext)) \<and>
         (\<forall>j. 2 \<le> j \<and> j < i \<longrightarrow>
            path_exists fs (path_join (folder_path c) (base @ '' ('' @ str_nat j @ '')'' @ ext)))))"
proof (intro conjI impI)
  assume sp: "splitext name = (base, ext)"
  then show "base @ ext = name" by (rule splitext_concat)
  {
    assume "\<not> path_exists fs (path_join (folder_path c) name)"
    then show "get_unique_file_name c fs name = name"
      by (simp add: get_unique_file_name_def file_name_exists_def)
  }
  {
    assume ex: "path_exists fs (path_join (folder_path c) name)"
    let ?i = "probe_counter fs (folder_path c) base ext 2"
    have r: "get_unique_file_name c fs name = getNewName base ext ?i"
      using ex sp by (simp add: get_unique_file_name_def file_name_exists_def)
    from probe_counter_spec [of 2 fs "folder_path c" base ext] r
    show "\<exists>i\<ge>2.
         get_unique_file_name c fs name = base @ '' ('' @ str_nat i @ '')'' @ ext \<and>
         \<not> path_exists fs (path_join (folder_path c) (base @ '' ('' @ str_nat i @ '')'' @ ext)) \<and>
         (\<forall>j. 2 \<le> j \<and> j < i \<longrightarrow>
            path_exists fs (path_join (folder_path c) (base @ '' ('' @ str_nat j @ '')'' @ ext)))"
      unfolding file_name_exists_def getNewName_def by (intro exI [of _ ?i]) simp
  }
qed

theorem get_unique_file_name_first_free_witness:
  "splitext ''x.txt'' = (''x'', ''.txt'') \<and>
   path_exists two_taken (path_join (folder_path demo_cache) ''x.txt'') \<and>
   get_unique_file_name demo_cache two_taken ''x.txt'' = ''x (3).txt''"
  using get_unique_file_name_first_free [of "''x.txt''" "''x''" "''.txt''" two_taken demo_cache]
  by (simp add: splitext_x_txt str_nat_digits get_unique_file_name_def file_name_exists_def
        path_exists_def path_join_def startswith_def endswith_def demo_cache_def two_taken_def
        getNewName_def probe_counter.simps)


section \<open>Adding files\<close>

lemma list_ex_key: "list_ex (\<lambda>r. key r = k) rows \<longleftrightarrow> k \<in> key ` set rows"
  by (auto simp: list_ex_iff)

text \<open>
  C4. When the key already has a row, \<open>add_file\<close> raises the duplicate-key error and
  the world it leaves is the world it was given: the same file system and the same store.
\<close>

theorem add_file_duplicate_key:
  "store w (table_name c) = Some rows \<Longrightarrow> k \<in> key ` set rows \<Longrightarrow>
   add_file c w k file_path target_file_name copy_file now = (Inl (DuplicateKey k), w)"
  by (simp add: add_file_def list_ex_key)

text \<open>What a successful add_file did, step by step.\<close>

lemma add_file_success:
  assumes "add_file c w k file_path target copy_file now = (Inr P, w')"
  obtains rows fs' where
    "store w (table_name c) = Some rows"
    "k \<notin> key ` set rows"
    "(if copy_file
      then shutil_copyfile (files w) file_path
             (path_join (folder_path c) (get_unique_file_name c (files w) target))
      else shutil_move (files w) file_path
             (path_join (folder_path c) (get_unique_file_name c (files w) target))) = Inr fs'"
    "w' = w\<lparr>files := fs',
            store := (store w)(table_name c \<mapsto>
              rows @ [\<lparr>key = k, file_name = get_unique_file_name c (files w) target,
                       timestamp = format_as_timestamp now\<rparr>])\<rparr>"
    "P = Some (path_join (folder_path c) (get_unique_file_name c (files w) target))"
proof -
  from assms obtain rows where rows: "store w (table_name c) = Some rows"
    by (auto simp: add_file_def split: option.splits)
  from assms rows have nk: "k \<notin> key ` set rows"
    by (auto simp: add_file_def list_ex_key split: if_splits)
  let ?dst = "path_join (folder_path c) (get_unique_file_name c (files w) target)"
  let ?tr = "if copy_file then shutil_copyfile (files w) file_path ?dst
             else shutil_move (files w) file_path ?dst"
  from assms rows nk obtain fs' where fs': "?tr = Inr fs'"
    by (cases ?tr) (auto simp: add_file_def list_ex_key Let_def split: if_splits)
  have flt: "filter (\<lambda>r. key r = k) rows = []"
    using nk by (auto simp: filter_empty_conv)
  from assms rows nk fs' flt
  have "w' = w\<lparr>files := fs',
            store := (store w)(table_name c \<mapsto>
              rows @ [\<lparr>key = k, file_name = get_unique_file_name c (files w) target,
                       timestamp = format_as_timestamp now\<rparr>])\<rparr>"
    and "P = Some ?dst"
    by (auto simp: add_file_def list_ex_key Let_def db_insert_def get_file_path_def
          split: if_splits)
  with rows nk fs' show thesis by (rule that)
qed

text \<open>
  C7. When \<open>add_file\<close> returns the path \<open>P\<close>, a following \<open>get_file_path\<close> for the
  same key returns \<open>P\<close>, and \<open>P\<close> is the folder joined with the resolved file name.
\<close>

theorem add_file_round_trip:
  "add_file c w k file_path target copy_file now = (Inr P, w') \<Longrightarrow>
   get_file_path c w' k = Inr P \<and>
   P = Some (path_join (folder_path c) (get_unique_file_name c (files w) target))"
proof -
  assume a: "add_file c w k file_path target copy_file now = (Inr P, w')"
  then obtain rows fs' where
    nk: "k \<notin> key ` set rows" and
    w': "w' = w\<lparr>files := fs',
            store := (store w)(table_name c \<mapsto>
              rows @ [\<lparr>key = k, file_name = get_unique_file_name c (files w) target,
                       timestamp = format_as_timestamp now\<rparr>])\<rparr>" and
    P: "P = Some (path_join (folder_path c) (get_unique_file_name c (files w) target))"
    by (rule add_file_success)
  have flt: "filter (\<lambda>r. key r = k) rows = []"
    using nk by (auto simp: filter_empty_conv)
  show ?thesis
    using w' P flt by (simp add: get_file_path_def)
qed

lemma copyfile_result:
  "shutil_copyfile fs src dst = Inr fs' \<Longrightarrow>
   src \<noteq> dst \<and> is_file fs src \<and> fs' = fmupd dst (the (fmlookup fs src)) fs"
  by (auto simp: shutil_copyfile_def is_file_def split: if_splits option.splits node.splits)

lemma move_result:
  "shutil_move fs src dst = Inr fs' \<Longrightarrow> \<not> path_exists fs dst \<Longrightarrow>
   fmlookup fs' src = None \<and> fmlookup fs' dst = fmlookup fs src \<and> path_exists fs src"
  by (auto simp: shutil_move_def is_dir_def path_exists_def Let_def os_rename.rep_eq
        rename_map_def inside_def
        split: if_splits option.splits node.splits)

text \<open>
  C8. After a successful \<open>add_file\<close> the resolved stored path holds what the source
  path held before the call. In copy mode the source path still holds it; in move mode
  nothing exists at the source path any more.
\<close>

theorem add_file_transfer_mode:
  "add_file c w k file_path target copy_file now = (Inr P, w') \<Longrightarrow>
   P = Some (path_join (folder_path c) (get_unique_file_name c (files w) target)) \<and>
   path_exists (files w) file_path \<and>
   fmlookup (files w') (path_join (folder_path c) (get_unique_file_name c (files w) target))
     = fmlookup (files w) file_path \<and>
   (copy_file \<longrightarrow> fmlookup (files w') file_path = fmlookup (files w) file_path) \<and>
   (\<not> copy_file \<longrightarrow> \<not> path_exists (files w') file_path)"
proof -
  assume a: "add_file c w k file_path target copy_file now = (Inr P, w')"
  let ?dst = "path_join (folder_path c) (get_unique_file_name c (files w) target)"
  from a obtain rows fs' where
    tr: "(if copy_file then shutil_copyfile (files w) file_path ?dst
          else shutil_move (files w) file_path ?dst) = Inr fs'" and
    w': "w' = w\<lparr>files := fs',
            store := (store w)(table_name c \<mapsto>
              rows @ [\<lparr>key = k, file_name = get_unique_file_name c (files w) target,
                       timestamp = format_as_timestamp now\<rparr>])\<rparr>" and
    P: "P = Some ?dst"
    by (rule add_file_success)
  have fresh: "\<not> path_exists (files w) ?dst" by (rule get_unique_file_name_fresh)
  have fs': "files w' = fs'" using w' by simp
  show ?thesis
  proof (cases copy_file)
    case True
    with tr have "shutil_copyfile (files w) file_path ?dst = Inr fs'" by simp
    from copyfile_result [OF this] P fs' True show ?thesis
      by (auto simp: is_file_def path_exists_def split: option.splits)
  next
    case False
    with tr have "shutil_move (files w) file_path ?dst = Inr fs'" by simp
    from move_result [OF this fresh] P fs' False show ?thesis
      by (simp add: path_exists_def)
  qed
qed

theorem add_file_duplicate_key_witness:
  "store one_cached (table_name demo_cache) =
     Some [\<lparr>key = ''1234'', file_name = ''test-file.txt'',
            timestamp = ''2024-03-01T12:00:00+01:00''\<rparr>] \<and>
   add_file demo_cache one_cached ''1234'' ''test-file.txt'' ''test-file.txt'' True demo_now =
     (Inl (DuplicateKey ''1234''), one_cached)"
proof -
  have s: "store one_cached (table_name demo_cache) =
     Some [\<lparr>key = ''1234'', file_name = ''test-file.txt'',
            timestamp = ''2024-03-01T12:00:00+01:00''\<rparr>]"
    by (simp add: one_cached_def demo_cache_def)
  show ?thesis
    using s add_file_duplicate_key [OF s, of "''1234''" "''test-file.txt''" "''test-file.txt''" True demo_now]
    by simp
qed

lemma move_first: "fst (add_file demo_cache fresh_world ''1234'' ''test-file.txt'' ''test-file.txt'' False demo_now) =
     Inr (Some ''cache-files/test-file.txt'')"
  by (simp add: eval_defs)

lemma copy_first: "fst (add_file demo_cache fresh_world ''1234'' ''test-file.txt'' ''test-file.txt'' True demo_now) =
     Inr (Some ''cache-files/test-file.txt'')"
  by (simp add: eval_defs)

theorem add_file_round_trip_witness:
  "fst (add_file demo_cache fresh_world ''1234'' ''test-file.txt'' ''test-file.txt'' False demo_now) =
     Inr (Some ''cache-files/test-file.txt'') \<and>
   get_file_path demo_cache
     (snd (add_file demo_cache fresh_world ''1234'' ''test-file.txt'' ''test-file.txt'' False demo_now))
     ''1234'' = Inr (Some ''cache-files/test-file.txt'')"
proof -
  let ?r = "add_file demo_cache fresh_world ''1234'' ''test-file.txt'' ''test-file.txt'' False demo_now"
  have "?r = (Inr (Some ''cache-files/test-file.txt''), snd ?r)"
    using move_first by (metis prod.collapse)
  from add_file_round_trip [OF this] move_first show ?thesis by simp
qed

theorem add_file_transfer_mode_witness:
  "(let r = add_file demo_cache fresh_world ''1234'' ''test-file.txt'' ''test-file.txt'' False demo_now
    in fst r = Inr (Some ''cache-files/test-file.txt'') \<and>
       \<not> path_exists (files (snd r)) ''test-file.txt'' \<and>
       fmlookup (files (snd r)) ''cache-files/test-file.txt'' = Some (File ''data'')) \<and>
   (let r = add_file demo_cache fresh_world ''1234'' ''test-file.txt'' ''test-file.txt'' True demo_now
    in fst r = Inr (Some ''cache-files/test-file.txt'') \<and>
       fmlookup (files (snd r)) ''test-file.txt'' = Some (File ''data'') \<and>
       fmlookup (files (snd r)) ''cache-files/test-file.txt'' = Some (File ''data''))"
proof -
  let ?m = "add_file demo_cache fresh_world ''1234'' ''test-file.txt'' ''test-file.txt'' False demo_now"
  let ?c = "add_file demo_cache fresh_world ''1234'' ''test-file.txt'' ''test-file.txt'' True demo_now"
  have src: "fmlookup (files fresh_world) ''test-file.txt'' = Some (File ''data'')"
    by (simp add: fresh_world_def)
  have name: "get_unique_file_name demo_cache (files fresh_world) ''test-file.txt'' = ''test-file.txt''"
    by (simp add: eval_defs)
  have join: "path_join (folder_path demo_cache) ''test-file.txt'' = ''cache-files/test-file.txt''"
    by (simp add: eval_defs)
  have "?m = (Inr (Some ''cache-files/test-file.txt''), snd ?m)"
    using move_first by (metis prod.collapse)
  from add_file_transfer_mode [OF this] have m: "\<not> path_exists (files (snd ?m)) ''test-file.txt''"
    "fmlookup (files (snd ?m)) ''cache-files/test-file.txt'' = Some (File ''data'')"
    by (simp_all add: src name join)
  have "?c = (Inr (Some ''cache-files/test-file.txt''), snd ?c)"
    using copy_first by (metis prod.collapse)
  from add_file_transfer_mode [OF this] have c: "fmlookup (files (snd ?c)) ''test-file.txt'' = Some (File ''data'')"
    "fmlookup (files (snd ?c)) ''cache-files/test-file.txt'' = Some (File ''data'')"
    by (simp_all add: src name join)
  from m c move_first copy_first show ?thesis by (simp add: Let_def)
qed


section \<open>Sequences of additions\<close>

text \<open>
  A sequence of \<open>add_file\<close> calls, each with its arguments and the clock's value at the
  call. \<open>add_files\<close> runs them in order and gives the final world when every call
  returned a path. \<open>keeps_stored_files\<close> says that along the run every call left a
  node at the stored path of every row that was there before it.
\<close>

record add_call =
  call_key :: string
  call_file_path :: string
  call_target_file_name :: string
  call_copy_file :: bool
  call_now :: datetime

definition add_call :: "cache \<Rightarrow> world \<Rightarrow> add_call \<Rightarrow> (error + string option) \<times> world" where
  "add_call c w x =
     add_file c w (call_key x) (call_file_path x) (call_target_file_name x)
       (call_copy_file x) (call_now x)"

fun add_files :: "cache \<Rightarrow> world \<Rightarrow> add_call list \<Rightarrow> world option" where
  "add_files c w [] = Some w"
| "add_files c w (x # xs) =
     (case add_call c w x of
        (Inr _, w') \<Rightarrow> add_files c w' xs
      | (Inl _, _) \<Rightarrow> None)"

definition stored_path :: "cache \<Rightarrow> entry \<Rightarrow> string" where
  "stored_path c r = path_join (folder_path c) (file_name r)"

definition rows_of :: "cache \<Rightarrow> world \<Rightarrow> entry list" where
  "rows_of c w = (case store w (table_name c) of None \<Rightarrow> [] | Some rows \<Rightarrow> rows)"

fun keeps_stored_files :: "cache \<Rightarrow> world \<Rightarrow> add_call list \<Rightarrow> bool" where
  "keeps_stored_files c w [] = True"
| "keeps_stored_files c w (x # xs) =
     (case add_call c w x of
        (Inr _, w') \<Rightarrow>
          list_all (\<lambda>r. path_exists (files w') (stored_path c r)) (rows_of c w) \<and>
          keeps_stored_files c w' xs
      | (Inl _, _) \<Rightarrow> True)"

lemma add_call_step:
  assumes "add_call c w x = (Inr P, w')"
  shows "\<exists>r. rows_of c w' = rows_of c w @ [r] \<and> key r \<notin> key ` set (rows_of c w) \<and>
             \<not> path_exists (files w) (stored_path c r) \<and>
             path_exists (files w') (stored_path c r) \<and>
             store w (table_name c) \<noteq> None"
proof -
  let ?n = "get_unique_file_name c (files w) (call_target_file_name x)"
  let ?r = "\<lparr>key = call_key x, file_name = ?n, timestamp = format_as_timestamp (call_now x)\<rparr>"
  from assms have a: "add_file c w (call_key x) (call_file_path x) (call_target_file_name x)
       (call_copy_file x) (call_now x) = (Inr P, w')" by (simp add: add_call_def)
  then obtain rows fs' where
    rows: "store w (table_name c) = Some rows" and
    nk: "call_key x \<notin> key ` set rows" and
    tr: "(if call_copy_file x
          then shutil_copyfile (files w) (call_file_path x) (path_join (folder_path c) ?n)
          else shutil_move (files w) (call_file_path x) (path_join (folder_path c) ?n)) = Inr fs'" and
    w': "w' = w\<lparr>files := fs', store := (store w)(table_name c \<mapsto> rows @ [?r])\<rparr>"
    by (rule add_file_success)
  have fresh0: "\<not> path_exists (files w) (path_join (folder_path c) ?n)"
    by (rule get_unique_file_name_fresh)
  have ex: "path_exists (files w') (stored_path c ?r)"
  proof (cases "call_copy_file x")
    case True
    with tr have "shutil_copyfile (files w) (call_file_path x) (path_join (folder_path c) ?n) = Inr fs'"
      by simp
    from copyfile_result [OF this] w' show ?thesis
      by (simp add: path_exists_def stored_path_def)
  next
    case False
    with tr have "shutil_move (files w) (call_file_path x) (path_join (folder_path c) ?n) = Inr fs'"
      by simp
    from move_result [OF this fresh0] w' show ?thesis
      by (simp add: path_exists_def stored_path_def)
  qed
  have fresh: "\<not> path_exists (files w) (stored_path c ?r)"
    using get_unique_file_name_fresh [of "files w" c] by (simp add: stored_path_def)
  from rows nk w' ex fresh show ?thesis
    by (intro exI [of _ ?r]) (simp add: rows_of_def)
qed


lemma add_files_keys:
  "add_files c w calls = Some w' \<Longrightarrow> distinct (map key (rows_of c w)) \<Longrightarrow>
   distinct (map key (rows_of c w'))"
proof (induction calls arbitrary: w)
  case Nil
  then show ?case by simp
next
  case (Cons x xs)
  from Cons.prems(1) obtain P w1 where st: "add_call c w x = (Inr P, w1)"
    and rest: "add_files c w1 xs = Some w'"
    by (auto split: prod.splits sum.splits)
  from add_call_step [OF st] Cons.prems(2) have "distinct (map key (rows_of c w1))"
    by auto
  with rest show ?case by (rule Cons.IH)
qed

lemma add_files_names:
  "add_files c w calls = Some w' \<Longrightarrow> keeps_stored_files c w calls \<Longrightarrow>
   distinct (map file_name (rows_of c w)) \<Longrightarrow>
   \<forall>r\<in>set (rows_of c w). path_exists (files w) (stored_path c r) \<Longrightarrow>
   distinct (map file_name (rows_of c w'))"
proof (induction calls arbitrary: w)
  case Nil
  then show ?case by simp
next
  case (Cons x xs)
  from Cons.prems(1) obtain P w1 where st: "add_call c w x = (Inr P, w1)"
    and rest: "add_files c w1 xs = Some w'"
    by (auto split: prod.splits sum.splits)
  from Cons.prems(2) st have kept: "\<forall>r\<in>set (rows_of c w). path_exists (files w1) (stored_path c r)"
    and keeps: "keeps_stored_files c w1 xs"
    by (simp_all add: list_all_iff)
  from add_call_step [OF st] obtain r where
    r: "rows_of c w1 = rows_of c w @ [r]" and
    fresh: "\<not> path_exists (files w) (stored_path c r)" and
    there: "path_exists (files w1) (stored_path c r)"
    by blast
  have new: "file_name r \<notin> file_name ` set (rows_of c w)"
  proof
    assume "file_name r \<in> file_name ` set (rows_of c w)"
    then obtain r0 where "r0 \<in> set (rows_of c w)" "file_name r0 = file_name r" by auto
    with Cons.prems(4) have "path_exists (files w) (stored_path c r)"
      by (auto simp: stored_path_def)
    with fresh show False by simp
  qed
  have d: "distinct (map file_name (rows_of c w1))"
    using r new Cons.prems(3) by simp
  have e: "\<forall>r\<in>set (rows_of c w1). path_exists (files w1) (stored_path c r)"
    using r kept there by auto
  from rest keeps d e show ?case by (rule Cons.IH)
qed

lemma copy_keeps_stored_files:
  "\<forall>x\<in>set calls. call_copy_file x \<Longrightarrow>
   \<forall>r\<in>set (rows_of c w). path_exists (files w) (stored_path c r) \<Longrightarrow>
   keeps_stored_files c w calls"
proof (induction calls arbitrary: w)
  case Nil
  then show ?case by simp
next
  case (Cons x xs)
  show ?case
  proof (cases "add_call c w x")
    case (Pair res w1)
    show ?thesis
    proof (cases res)
      case (Inl e)
      with Pair show ?thesis by simp
    next
      case (Inr P)
      with Pair have st: "add_call c w x = (Inr P, w1)" by simp
      then have a: "add_file c w (call_key x) (call_file_path x) (call_target_file_name x)
          True (call_now x) = (Inr P, w1)"
        using Cons.prems(1) by (simp add: add_call_def)
      then obtain rows fs' where
        cp: "shutil_copyfile (files w) (call_file_path x)
               (path_join (folder_path c)
                 (get_unique_file_name c (files w) (call_target_file_name x))) = Inr fs'"
        and w1: "files w1 = fs'"
        by (rule add_file_success) simp
      from copyfile_result [OF cp] w1
      have mono: "\<And>p. path_exists (files w) p \<Longrightarrow> path_exists (files w1) p"
        by (auto simp: path_exists_def)
      with Cons.prems(2)
      have kept: "\<forall>r\<in>set (rows_of c w). path_exists (files w1) (stored_path c r)" by blast
      from add_call_step [OF st] obtain r where
        r: "rows_of c w1 = rows_of c w @ [r]" and
        there: "path_exists (files w1) (stored_path c r)"
        by blast
      have e: "\<forall>r\<in>set (rows_of c w1). path_exists (files w1) (stored_path c r)"
        using r kept there by auto
      from Cons.prems(1) have "\<forall>x\<in>set xs. call_copy_file x" by simp
      from Cons.IH [OF this e] kept st show ?thesis
        by (simp add: list_all_iff)
    qed
  qed
qed

text \<open>
  C1 (as amended). From an empty table, after any sequence of successful \<open>add_file\<close>
  calls no two rows share a key. No two rows share a stored file name either, provided
  every call left the stored files of the rows before it in place; every call in copy
  mode does. (A move whose source is a stored file takes that file out from under its
  row, and the name is handed out again.)
\<close>

theorem add_files_unique:
  "rows_of c w0 = [] \<Longrightarrow> add_files c w0 calls = Some w \<Longrightarrow>
   distinct (map key (rows_of c w)) \<and>
   (keeps_stored_files c w0 calls \<longrightarrow> distinct (map file_name (rows_of c w))) \<and>
   ((\<forall>x\<in>set calls. call_copy_file x) \<longrightarrow> distinct (map file_name (rows_of c w)))"
proof (intro conjI impI)
  assume e: "rows_of c w0 = []" and run: "add_files c w0 calls = Some w"
  from run show "distinct (map key (rows_of c w))"
    by (rule add_files_keys) (simp add: e)
  {
    assume "keeps_stored_files c w0 calls"
    with run show "distinct (map file_name (rows_of c w))"
      by (rule add_files_names) (simp_all add: e)
  }
  {
    assume "\<forall>x\<in>set calls. call_copy_file x"
    then have "keeps_stored_files c w0 calls"
      by (rule copy_keeps_stored_files) (simp add: e)
    with run show "distinct (map file_name (rows_of c w))"
      by (rule add_files_names) (simp_all add: e)
  }
qed

definition stored_names :: "cache \<Rightarrow> world \<Rightarrow> string list" where
  "stored_names c w = map file_name (rows_of c w)"

definition stored_keys :: "cache \<Rightarrow> world \<Rightarrow> string list" where
  "stored_keys c w = map key (rows_of c w)"

definition copy_call :: "string \<Rightarrow> string \<Rightarrow> add_call" where
  "copy_call k name =
     \<lparr>call_key = k, call_file_path = ''test-file.txt'', call_target_file_name = name,
      call_copy_file = True, call_now = demo_now\<rparr>"

definition move_call :: "string \<Rightarrow> string \<Rightarrow> string \<Rightarrow> add_call" where
  "move_call k src name =
     \<lparr>call_key = k, call_file_path = src, call_target_file_name = name,
      call_copy_file = False, call_now = demo_now\<rparr>"

definition three_copies :: "add_call list" where
  "three_copies = [copy_call ''1'' ''x.txt'', copy_call ''2'' ''x.txt'', copy_call ''3'' ''x.txt'']"

definition moved_out :: "add_call list" where
  "moved_out =
     [copy_call ''1'' ''x.txt'', move_call ''2'' ''cache-files/x.txt'' ''y.txt'',
      copy_call ''3'' ''x.txt'']"

lemmas run_defs = add_call_def copy_call_def move_call_def rows_of_def stored_path_def
  probe_counter.simps getNewName_def splitext_x_txt str_nat_digits demo_timestamp

lemma three_copies_run:
  "map_option (stored_names demo_cache) (add_files demo_cache fresh_world three_copies) =
   Some [''x.txt'', ''x (2).txt'', ''x (3).txt'']"
  by (simp add: three_copies_def stored_names_def run_defs eval_defs)

lemma three_copies_keeps: "keeps_stored_files demo_cache fresh_world three_copies"
  by (simp add: three_copies_def run_defs eval_defs)

theorem add_files_unique_counterexample:
  "rows_of demo_cache fresh_world = [] \<and>
   map_option (stored_keys demo_cache) (add_files demo_cache fresh_world moved_out) =
     Some [''1'', ''2'', ''3''] \<and>
   map_option (stored_names demo_cache) (add_files demo_cache fresh_world moved_out) =
     Some [''x.txt'', ''y.txt'', ''x.txt'']"
  by (simp add: moved_out_def stored_names_def stored_keys_def run_defs eval_defs)

theorem add_files_unique_witness:
  "rows_of demo_cache fresh_world = [] \<and>
   keeps_stored_files demo_cache fresh_world three_copies \<and>
   list_all call_copy_file three_copies \<and>
   map_option (stored_names demo_cache) (add_files demo_cache fresh_world three_copies) =
     Some [''x.txt'', ''x (2).txt'', ''x (3).txt''] \<and>
   map_option (distinct \<circ> stored_keys demo_cache)
     (add_files demo_cache fresh_world three_copies) = Some True \<and>
   map_option (distinct \<circ> stored_names demo_cache)
     (add_files demo_cache fresh_world three_copies) = Some True"
proof -
  have e: "rows_of demo_cache fresh_world = []"
    by (simp add: rows_of_def fresh_world_def demo_cache_def)
  have cp: "list_all call_copy_file three_copies"
    by (simp add: three_copies_def copy_call_def)
  from three_copies_run obtain w where
    w: "add_files demo_cache fresh_world three_copies = Some w"
    by auto
  from add_files_unique [OF e w] three_copies_keeps e cp w three_copies_run show ?thesis
    by (simp add: stored_names_def stored_keys_def)
qed


section \<open>Eviction\<close>
























section \<open>Construction\<close>



lemma init_db_existing: "store w (table_name c) = Some rows \<Longrightarrow> init_db c w = w"
  by (simp add: init_db_def)

lemma init_db_rows: "rows_of c (init_db c w) = rows_of c w \<and> store (init_db c w) (table_name c) \<noteq> None"
  by (auto simp: init_db_def rows_of_def split: option.splits)








section \<open>The timestamp format\<close>

text \<open>
  The values a \<open>datetime\<close> can hold: the ranges its constructor checks, with the
  length of the month from \<open>_days_in_month\<close>.
\<close>

definition is_leap :: "nat \<Rightarrow> bool" where
  "is_leap y \<longleftrightarrow> y mod 4 = 0 \<and> (y mod 100 \<noteq> 0 \<or> y mod 400 = 0)"

definition days_in_month :: "nat \<Rightarrow> nat \<Rightarrow> nat" where
  "days_in_month y m =
     (if m = 2 \<and> is_leap y then 29 else [0, 31, 28, 31, 30, 31, 30, 31, 31, 30, 31, 30, 31] ! m)"

definition valid_datetime :: "datetime \<Rightarrow> bool" where
  "valid_datetime dt \<longleftrightarrow>
     1 \<le> year dt \<and> year dt \<le> 9999 \<and> 1 \<le> month dt \<and> month dt \<le> 12 \<and>
     1 \<le> day dt \<and> day dt \<le> days_in_month (year dt) (month dt) \<and>
     hour dt < 24 \<and> minute dt < 60 \<and> second dt < 60 \<and> microsecond dt < 1000000 \<and>
     (case utcoffset dt of None \<Rightarrow> True | Some off \<Rightarrow> \<bar>off\<bar> < 86400000000)"



lemma digit_cases:
  "a < 10 \<Longrightarrow> a = 0 \<or> a = 1 \<or> a = 2 \<or> a = 3 \<or> a = 4 \<or> a = 5 \<or> a = 6 \<or> a = 7 \<or> a = 8 \<or> a = (9::nat)"
  by arith

lemma digit_char_code: "a < 10 \<Longrightarrow> of_char (digit_char a) = (48 + a :: nat)"
  by (drule digit_cases) (elim disjE; simp add: digit_char_def)

lemma digit_char_less: "a < 10 \<Longrightarrow> b < 10 \<Longrightarrow> digit_char a < digit_char b \<longleftrightarrow> a < b"
  by (simp add: less_char_def digit_char_code)

lemma digit_char_eq: "a < 10 \<Longrightarrow> b < 10 \<Longrightarrow> digit_char a = digit_char b \<longleftrightarrow> a = b"
  by (auto dest: digit_char_inj)


lemma str_nat_two: "10 \<le> n \<Longrightarrow> n < 100 \<Longrightarrow> str_nat n = [digit_char (n div 10), digit_char (n mod 10)]"
  by (simp add: str_nat_large str_nat_small)

lemma zfill2: "n < 100 \<Longrightarrow> zfill 2 n = [digit_char (n div 10), digit_char (n mod 10)]"
proof (cases "n < 10")
  case True
  then show ?thesis
    by (simp add: zfill_def str_nat_small digit_char_def)
next
  case False
  assume "n < 100"
  with False show ?thesis
    by (simp add: zfill_def str_nat_two)
qed

lemma str_nat_three:
  "100 \<le> n \<Longrightarrow> n < 1000 \<Longrightarrow>
   str_nat n = [digit_char (n div 100), digit_char (n div 10 mod 10), digit_char (n mod 10)]"
proof -
  assume a: "100 \<le> n" "n < 1000"
  then have "10 \<le> n div 10" "n div 10 < 100" by simp_all
  moreover have "n div 10 div 10 = n div 100" by (simp add: div_mult2_eq [symmetric])
  ultimately show ?thesis using a
    by (simp add: str_nat_large [of n] str_nat_two)
qed

lemma str_nat_four:
  "1000 \<le> n \<Longrightarrow> n < 10000 \<Longrightarrow>
   str_nat n = [digit_char (n div 1000), digit_char (n div 100 mod 10),
                digit_char (n div 10 mod 10), digit_char (n mod 10)]"
proof -
  assume a: "1000 \<le> n" "n < 10000"
  then have "100 \<le> n div 10" "n div 10 < 1000" by simp_all
  moreover have "n div 10 div 100 = n div 1000" "n div 10 div 10 = n div 100"
    by (simp_all add: div_mult2_eq [symmetric])
  ultimately show ?thesis using a
    by (simp add: str_nat_large [of n] str_nat_three)
qed

lemma replicate_zeros:
  "replicate 1 CHR ''0'' = ''0''" "replicate 2 CHR ''0'' = ''00''"
  "replicate 3 CHR ''0'' = ''000''"
  by (simp_all add: numeral_2_eq_2 numeral_3_eq_3)

lemma zfill4:
  "n < 10000 \<Longrightarrow>
   zfill 4 n = [digit_char (n div 1000), digit_char (n div 100 mod 10),
                digit_char (n div 10 mod 10), digit_char (n mod 10)]"
proof -
  assume a: "n < 10000"
  consider "n < 10" | "10 \<le> n" "n < 100" | "100 \<le> n" "n < 1000" | "1000 \<le> n"
    by linarith
  then show ?thesis
  proof cases
    case 1
    then show ?thesis by (simp add: zfill_def str_nat_small digit_char_def replicate_zeros)
  next
    case 2
    then show ?thesis by (simp add: zfill_def str_nat_two digit_char_def replicate_zeros)
  next
    case 3
    then show ?thesis by (simp add: zfill_def str_nat_three digit_char_def)
  next
    case 4
    with a show ?thesis by (simp add: zfill_def str_nat_four)
  qed
qed


lemma month_cases:
  "1 \<le> m \<Longrightarrow> m \<le> 12 \<Longrightarrow>
   m = 1 \<or> m = 2 \<or> m = 3 \<or> m = 4 \<or> m = 5 \<or> m = 6 \<or> m = 7 \<or> m = 8 \<or> m = 9 \<or>
   m = 10 \<or> m = 11 \<or> m = (12::nat)"
  by arith

lemma days_in_month_le: "1 \<le> m \<Longrightarrow> m \<le> 12 \<Longrightarrow> days_in_month y m \<le> 31"
  by (drule (1) month_cases) (elim disjE; simp add: days_in_month_def)

lemma valid_datetime_bounds:
  "valid_datetime dt \<Longrightarrow>
   year dt < 10000 \<and> month dt < 100 \<and> day dt < 100 \<and> hour dt < 100 \<and> minute dt < 100 \<and>
   second dt < 100"
proof -
  assume v: "valid_datetime dt"
  then have "day dt \<le> days_in_month (year dt) (month dt)" "1 \<le> month dt" "month dt \<le> 12"
    by (simp_all add: valid_datetime_def)
  with days_in_month_le [of "month dt" "year dt"] have "day dt < 100" by simp
  with v show ?thesis by (simp add: valid_datetime_def)
qed







section \<open>Timestamps and chronological order\<close>

lemma append_less:
  "length a = length b \<Longrightarrow> (a @ x < b @ y) \<longleftrightarrow> (a < b \<or> a = b \<and> x < (y :: 'a :: linorder list))"
proof (induction a b rule: list_induct2)
  case Nil
  then show ?case by simp
next
  case (Cons p ps q qs)
  then show ?case by auto
qed

lemma two_digits_less:
  "n < 100 \<Longrightarrow> m < 100 \<Longrightarrow>
   (n div 10 < m div 10 \<or> n div 10 = m div 10 \<and> n mod 10 < m mod 10) \<longleftrightarrow> n < (m::nat)"
proof -
  have n: "n = 10 * (n div 10) + n mod 10" and m: "m = 10 * (m div 10) + m mod 10"
    by simp_all
  have "n mod 10 < 10" "m mod 10 < 10" by simp_all
  then show ?thesis using n m by linarith
qed

lemma two_digits_eq:
  "(n div 10 = m div 10 \<and> n mod 10 = m mod 10) \<longleftrightarrow> n = (m::nat)"
  by (metis div_mult_mod_eq)

lemma zfill2_less:
  "n < 100 \<Longrightarrow> m < 100 \<Longrightarrow> (zfill 2 n @ x < zfill 2 m @ y) \<longleftrightarrow> (n < m \<or> n = m \<and> x < y)"
proof -
  assume a: "n < 100" "m < 100"
  then have b: "n div 10 < 10" "m div 10 < 10" "n mod 10 < 10" "m mod 10 < 10" by simp_all
  show ?thesis
    using two_digits_less [OF a] two_digits_eq [of n m]
    by (simp add: zfill2 a digit_char_less digit_char_eq b) blast
qed


lemma zfill4_split: "n < 10000 \<Longrightarrow> zfill 4 n = zfill 2 (n div 100) @ zfill 2 (n mod 100)"
proof -
  assume a: "n < 10000"
  then have b: "n div 100 < 100" "n mod 100 < 100" by simp_all
  have c: "n div 100 div 10 = n div 1000" "n mod 100 div 10 = n div 10 mod 10"
    "n mod 100 mod 10 = n mod 10"
    by (simp_all add: div_mult2_eq [symmetric] mod_mult2_eq [of n 10 10, simplified] mod_mod_cancel)
  show ?thesis
    by (simp add: zfill4 [OF a] zfill2 [OF b(1)] zfill2 [OF b(2)] c)
qed

lemma hundreds_less:
  "(n div 100 < m div 100 \<or> n div 100 = m div 100 \<and> (n mod 100 < m mod 100 \<or> n mod 100 = m mod 100 \<and> R))
   \<longleftrightarrow> (n < m \<or> n = (m::nat) \<and> R)"
proof -
  have n: "n = 100 * (n div 100) + n mod 100" and m: "m = 100 * (m div 100) + m mod 100"
    by simp_all
  have l: "n mod 100 < 100" "m mod 100 < 100" by simp_all
  have "(n div 100 < m div 100 \<or> n div 100 = m div 100 \<and> n mod 100 < m mod 100) \<longleftrightarrow> n < m"
    using n m l by linarith
  moreover have "(n div 100 = m div 100 \<and> n mod 100 = m mod 100) \<longleftrightarrow> n = m"
    by (metis div_mult_mod_eq)
  ultimately show ?thesis by blast
qed

lemma zfill4_less:
  "n < 10000 \<Longrightarrow> m < 10000 \<Longrightarrow>
   (zfill 4 n @ x < zfill 4 m @ y) \<longleftrightarrow> (n < m \<or> n = m \<and> x < y)"
proof -
  assume a: "n < 10000" "m < 10000"
  then have b: "n div 100 < 100" "m div 100 < 100" "n mod 100 < 100" "m mod 100 < 100"
    by simp_all
  show ?thesis
    by (simp add: zfill4_split a zfill2_less b hundreds_less)
qed

text \<open>The order of the calendar fields down to the second, read from left to right.\<close>

definition civil_less :: "datetime \<Rightarrow> datetime \<Rightarrow> bool" where
  "civil_less a b \<longleftrightarrow>
     year a < year b \<or> year a = year b \<and>
    (month a < month b \<or> month a = month b \<and>
    (day a < day b \<or> day a = day b \<and>
    (hour a < hour b \<or> hour a = hour b \<and>
    (minute a < minute b \<or> minute a = minute b \<and> second a < second b))))"

lemma strftime_less:
  assumes "valid_datetime a" "valid_datetime b" "utcoffset a = utcoffset b"
  shows "strftime a < strftime b \<longleftrightarrow> civil_less a b"
proof -
  note ba = valid_datetime_bounds [OF assms(1)] and bb = valid_datetime_bounds [OF assms(2)]
  show ?thesis
    using ba bb assms(3)
    by (simp add: strftime_def zfill4_less zfill2_less civil_less_def)
qed

lemma strftime_length:
  "valid_datetime a \<Longrightarrow> length (strftime a) = 19 + length (strftime_z (utcoffset a))"
proof -
  assume "valid_datetime a"
  note b = valid_datetime_bounds [OF this]
  then show ?thesis
    by (simp add: strftime_def zfill4 zfill2)
qed

lemma insert_less:
  "length s = length t \<Longrightarrow>
   (take k s @ c # drop k s < take k t @ c # drop k t) \<longleftrightarrow> s < (t :: 'a :: linorder list)"
proof -
  assume l: "length s = length t"
  then have lt: "length (take k s) = length (take k t)" by simp
  have "(take k s @ c # drop k s < take k t @ c # drop k t) \<longleftrightarrow>
        (take k s < take k t \<or> take k s = take k t \<and> drop k s < drop k t)"
    by (simp add: append_less [OF lt])
  also have "\<dots> \<longleftrightarrow> (take k s @ drop k s < take k t @ drop k t)"
    by (rule append_less [OF lt, symmetric])
  finally show ?thesis by simp
qed

lemma format_as_timestamp_less:
  assumes "valid_datetime a" "valid_datetime b" "utcoffset a = utcoffset b"
  shows "format_as_timestamp a < format_as_timestamp b \<longleftrightarrow> civil_less a b"
proof -
  have l: "length (strftime a) = length (strftime b)"
    using assms by (simp add: strftime_length)
  have "format_as_timestamp a < format_as_timestamp b \<longleftrightarrow> strftime a < strftime b"
    unfolding format_as_timestamp_def Let_def l
    using insert_less [OF l, of "length (strftime b) - 2" "CHR '':''"] by simp
  with strftime_less [OF assms] show ?thesis by simp
qed

text \<open>
  Chronological order. The day number of a date is \<open>_ymd2ord\<close> (with
  \<open>_days_before_year\<close> and \<open>_days_before_month\<close>), counted in the proleptic Gregorian
  calendar. An aware \<open>datetime\<close> denotes the instant of its fields minus its offset,
  here in microseconds; \<open>earlier\<close> is \<open><\<close> on aware values.
\<close>

definition days_before_year :: "nat \<Rightarrow> int" where
  "days_before_year y =
     (let p = int y - 1 in p * 365 + p div 4 - p div 100 + p div 400)"

definition days_before_month :: "nat \<Rightarrow> nat \<Rightarrow> int" where
  "days_before_month y m =
     [0, 0, 31, 59, 90, 120, 151, 181, 212, 243, 273, 304, 334] ! m +
     (if m > 2 \<and> is_leap y then 1 else 0)"

definition ymd2ord :: "nat \<Rightarrow> nat \<Rightarrow> nat \<Rightarrow> int" where
  "ymd2ord y m d = days_before_year y + days_before_month y m + int d"

definition civil_seconds :: "datetime \<Rightarrow> int" where
  "civil_seconds dt =
     ((ymd2ord (year dt) (month dt) (day dt) * 24 + int (hour dt)) * 60 + int (minute dt)) * 60
       + int (second dt)"

definition utc_microseconds :: "datetime \<Rightarrow> int" where
  "utc_microseconds dt =
     civil_seconds dt * 1000000 + int (microsecond dt)
     - (case utcoffset dt of None \<Rightarrow> 0 | Some off \<Rightarrow> off)"

definition earlier :: "datetime \<Rightarrow> datetime \<Rightarrow> bool" where
  "earlier a b \<longleftrightarrow> utc_microseconds a < utc_microseconds b"

text \<open>\<open>dt.replace(microsecond=0)\<close>: the value cut to its whole second.\<close>

definition whole_second :: "datetime \<Rightarrow> datetime" where
  "whole_second d = d\<lparr>microsecond := 0\<rparr>"

definition days_in_year :: "nat \<Rightarrow> int" where
  "days_in_year y = (if is_leap y then 366 else 365)"

lemma days_before_year_nat:
  "days_before_year (Suc p) = int (p * 365) + int (p div 4) - int (p div 100) + int (p div 400)"
proof -
  have e: "int (Suc p) - 1 = int p" by simp
  have d: "int p div 4 = int (p div 4)" "int p div 100 = int (p div 100)"
    "int p div 400 = int (p div 400)"
    by (simp_all only: zdiv_int of_nat_numeral)
  show ?thesis
    unfolding days_before_year_def Let_def e d by (simp only: of_nat_mult of_nat_numeral)
qed

lemma days_before_year_Suc:
  "1 \<le> y \<Longrightarrow> days_before_year (Suc y) = days_before_year y + days_in_year y"
proof -
  assume "1 \<le> y"
  then obtain p where y: "y = Suc p" by (cases y) auto
  note dn = days_before_year_nat [of "Suc p"] days_before_year_nat [of p]
  have "(100::nat) dvd 400" "(4::nat) dvd 100" by simp_all
  then have d: "Suc p mod 400 = 0 \<Longrightarrow> Suc p mod 100 = 0"
    "Suc p mod 100 = 0 \<Longrightarrow> Suc p mod 4 = 0"
    by (simp_all only: mod_eq_0_iff_dvd) (blast intro: dvd_trans)+
  show ?thesis
  proof (cases "Suc p mod 4 = 0")
    case False
    with d(2) have h: "Suc p mod 100 \<noteq> 0" by auto
    with d(1) have "Suc p mod 400 \<noteq> 0" by auto
    with False h show ?thesis
      unfolding y dn days_in_year_def is_leap_def
      by (simp add: div_Suc)
  next
    case four: True
    show ?thesis
    proof (cases "Suc p mod 100 = 0")
      case False
      with d(1) have "Suc p mod 400 \<noteq> 0" by auto
      with False four show ?thesis
        unfolding y dn days_in_year_def is_leap_def
        by (simp add: div_Suc)
    next
      case hundred: True
      show ?thesis
      proof (cases "Suc p mod 400 = 0")
        case True
        with hundred four show ?thesis
          unfolding y dn days_in_year_def is_leap_def
          by (simp add: div_Suc)
      next
        case False
        with hundred four show ?thesis
          unfolding y dn days_in_year_def is_leap_def
          by (simp add: div_Suc)
      qed
    qed
  qed
qed

lemma days_in_year_pos: "365 \<le> days_in_year y"
  by (simp add: days_in_year_def)

lemma days_before_year_mono:
  "1 \<le> y1 \<Longrightarrow> y1 < y2 \<Longrightarrow> days_before_year y1 + days_in_year y1 \<le> days_before_year y2"
proof (induction y2)
  case 0
  then show ?case by simp
next
  case (Suc k)
  show ?case
  proof (cases "y1 = k")
    case True
    with Suc.prems show ?thesis by (simp add: days_before_year_Suc)
  next
    case False
    with Suc.prems have lt: "y1 < k" by simp
    with Suc.prems have "1 \<le> k" by simp
    from days_before_year_Suc [OF this] Suc.IH [OF Suc.prems(1) lt] days_in_year_pos [of k]
    show ?thesis by simp
  qed
qed

lemma days_before_month_Suc:
  "1 \<le> m \<Longrightarrow> m < 12 \<Longrightarrow>
   days_before_month y (Suc m) = days_before_month y m + int (days_in_month y m)"
proof -
  assume "1 \<le> m" "m < 12"
  then have "m = 1 \<or> m = 2 \<or> m = 3 \<or> m = 4 \<or> m = 5 \<or> m = 6 \<or> m = 7 \<or> m = 8 \<or> m = 9 \<or>
    m = 10 \<or> m = 11" by arith
  then show ?thesis
    by (elim disjE; simp add: days_before_month_def days_in_month_def eval_nat_numeral)
qed

lemma days_before_month_mono:
  "1 \<le> m1 \<Longrightarrow> m1 < m2 \<Longrightarrow> m2 \<le> 12 \<Longrightarrow>
   days_before_month y m1 + int (days_in_month y m1) \<le> days_before_month y m2"
proof (induction m2)
  case 0
  then show ?case by simp
next
  case (Suc k)
  show ?case
  proof (cases "m1 = k")
    case True
    with Suc.prems show ?thesis by (simp add: days_before_month_Suc)
  next
    case False
    with Suc.prems have lt: "m1 < k" and k: "1 \<le> k" "k < 12" by simp_all
    from days_before_month_Suc [OF k] Suc.IH [OF Suc.prems(1) lt] k show ?thesis by simp
  qed
qed

lemma day_of_year_bounds:
  "1 \<le> m \<Longrightarrow> m \<le> 12 \<Longrightarrow> 1 \<le> d \<Longrightarrow> d \<le> days_in_month y m \<Longrightarrow>
   1 \<le> days_before_month y m + int d \<and> days_before_month y m + int d \<le> days_in_year y"
proof -
  assume m: "1 \<le> m" "m \<le> 12" and d: "1 \<le> d" "d \<le> days_in_month y m"
  from month_cases [OF m] d show ?thesis
    by (elim disjE; simp add: days_before_month_def days_in_month_def days_in_year_def
          split: if_splits)
qed

definition valid_date :: "nat \<Rightarrow> nat \<Rightarrow> nat \<Rightarrow> bool" where
  "valid_date y m d \<longleftrightarrow> 1 \<le> y \<and> 1 \<le> m \<and> m \<le> 12 \<and> 1 \<le> d \<and> d \<le> days_in_month y m"

lemma ymd2ord_mono:
  assumes "valid_date y1 m1 d1" "valid_date y2 m2 d2"
    and "y1 < y2 \<or> y1 = y2 \<and> (m1 < m2 \<or> m1 = m2 \<and> d1 < d2)"
  shows "ymd2ord y1 m1 d1 < ymd2ord y2 m2 d2"
proof -
  from assms(1) have v1: "1 \<le> y1" "1 \<le> m1" "m1 \<le> 12" "1 \<le> d1" "d1 \<le> days_in_month y1 m1"
    by (simp_all add: valid_date_def)
  from assms(2) have v2: "1 \<le> y2" "1 \<le> m2" "m2 \<le> 12" "1 \<le> d2" "d2 \<le> days_in_month y2 m2"
    by (simp_all add: valid_date_def)
  note b1 = day_of_year_bounds [OF v1(2-5)] and b2 = day_of_year_bounds [OF v2(2-5)]
  from assms(3) consider "y1 < y2" | "y1 = y2" "m1 < m2" | "y1 = y2" "m1 = m2" "d1 < d2"
    by blast
  then show ?thesis
  proof cases
    case 1
    from days_before_year_mono [OF v1(1) 1] b1 b2 show ?thesis
      by (simp add: ymd2ord_def)
  next
    case 2
    from days_before_month_mono [OF v1(2) 2(2) v2(3), of y1] v1(5) v2(4) 2(1) show ?thesis
      by (simp add: ymd2ord_def)
  next
    case 3
    then show ?thesis by (simp add: ymd2ord_def)
  qed
qed

lemma ymd2ord_less:
  assumes "valid_date y1 m1 d1" "valid_date y2 m2 d2"
  shows "ymd2ord y1 m1 d1 < ymd2ord y2 m2 d2 \<longleftrightarrow>
         (y1 < y2 \<or> y1 = y2 \<and> (m1 < m2 \<or> m1 = m2 \<and> d1 < d2))"
proof
  assume "y1 < y2 \<or> y1 = y2 \<and> (m1 < m2 \<or> m1 = m2 \<and> d1 < d2)"
  with assms show "ymd2ord y1 m1 d1 < ymd2ord y2 m2 d2" by (rule ymd2ord_mono)
next
  assume l: "ymd2ord y1 m1 d1 < ymd2ord y2 m2 d2"
  show "y1 < y2 \<or> y1 = y2 \<and> (m1 < m2 \<or> m1 = m2 \<and> d1 < d2)"
  proof (rule ccontr)
    assume n: "\<not> (y1 < y2 \<or> y1 = y2 \<and> (m1 < m2 \<or> m1 = m2 \<and> d1 < d2))"
    then consider "y1 = y2 \<and> m1 = m2 \<and> d1 = d2"
      | "y2 < y1 \<or> y2 = y1 \<and> (m2 < m1 \<or> m2 = m1 \<and> d2 < d1)"
      by linarith
    then show False
    proof cases
      case 1
      with l show False by simp
    next
      case 2
      with assms(2,1) have "ymd2ord y2 m2 d2 < ymd2ord y1 m1 d1" by (rule ymd2ord_mono)
      with l show False by simp
    qed
  qed
qed


lemma mixed_radix_less:
  fixes a b K :: int and x y :: nat
  assumes "int x < K" "int y < K"
  shows "a * K + int x < b * K + int y \<longleftrightarrow> (a < b \<or> a = b \<and> x < y)"
proof (cases "a < b")
  case True
  then have "a + 1 \<le> b" by simp
  moreover have "0 \<le> K" using assms(1) by simp
  ultimately have "(a + 1) * K \<le> b * K" by (rule mult_right_mono)
  with assms True show ?thesis by (simp add: algebra_simps)
next
  case False
  show ?thesis
  proof (cases "a = b")
    case True
    then show ?thesis by simp
  next
    case ne: False
    with False have "b + 1 \<le> a" by simp
    moreover have "0 \<le> K" using assms(1) by simp
    ultimately have "(b + 1) * K \<le> a * K" by (rule mult_right_mono)
    with assms False ne show ?thesis by (simp add: algebra_simps)
  qed
qed

lemma mixed_radix_eq:
  fixes a b K :: int and x y :: nat
  assumes "int x < K" "int y < K"
  shows "a * K + int x = b * K + int y \<longleftrightarrow> a = b \<and> x = y"
  using mixed_radix_less [OF assms, of a b] mixed_radix_less [OF assms(2,1), of b a]
  by (auto; linarith)

lemma clock_less:
  fixes o1 o2 :: int
  assumes "h1 < 24" "h2 < 24" "m1 < 60" "m2 < 60" "s1 < 60" "s2 < (60::nat)"
  shows "((o1 * 24 + int h1) * 60 + int m1) * 60 + int s1 <
         ((o2 * 24 + int h2) * 60 + int m2) * 60 + int s2 \<longleftrightarrow>
         (o1 < o2 \<or> o1 = o2 \<and> (h1 < h2 \<or> h1 = h2 \<and> (m1 < m2 \<or> m1 = m2 \<and> s1 < s2)))"
proof -
  have b: "int h1 < 24" "int h2 < 24" "int m1 < 60" "int m2 < 60" "int s1 < 60" "int s2 < 60"
    using assms by simp_all
  show ?thesis
    unfolding mixed_radix_less [OF b(5,6)] mixed_radix_less [OF b(3,4)]
      mixed_radix_less [OF b(1,2)] mixed_radix_eq [OF b(3,4)] mixed_radix_eq [OF b(1,2)]
    by blast
qed

lemma ymd2ord_eq:
  assumes "valid_date y1 m1 d1" "valid_date y2 m2 d2"
  shows "ymd2ord y1 m1 d1 = ymd2ord y2 m2 d2 \<longleftrightarrow> y1 = y2 \<and> m1 = m2 \<and> d1 = d2"
  using ymd2ord_less [OF assms] ymd2ord_less [OF assms(2,1)] by (auto; linarith)

lemma valid_datetime_date: "valid_datetime a \<Longrightarrow> valid_date (year a) (month a) (day a)"
  by (simp add: valid_datetime_def valid_date_def)

lemma earlier_seconds:
  assumes "valid_datetime a" "valid_datetime b" "utcoffset a = utcoffset b"
  shows "earlier (a\<lparr>microsecond := 0\<rparr>) (b\<lparr>microsecond := 0\<rparr>) \<longleftrightarrow> civil_less a b"
proof -
  note da = valid_datetime_date [OF assms(1)] and db = valid_datetime_date [OF assms(2)]
  from assms(1,2) have t: "hour a < 24" "hour b < 24" "minute a < 60" "minute b < 60"
    "second a < 60" "second b < 60"
    by (simp_all add: valid_datetime_def)
  have c: "civil_seconds (a\<lparr>microsecond := 0\<rparr>) = civil_seconds a"
    "civil_seconds (b\<lparr>microsecond := 0\<rparr>) = civil_seconds b"
    by (simp_all add: civil_seconds_def)
  have "earlier (a\<lparr>microsecond := 0\<rparr>) (b\<lparr>microsecond := 0\<rparr>) \<longleftrightarrow>
    civil_seconds a < civil_seconds b"
    using assms(3) by (simp add: earlier_def utc_microseconds_def c)
  also have "\<dots> \<longleftrightarrow> civil_less a b"
    unfolding civil_seconds_def clock_less [OF t] ymd2ord_less [OF da db]
      ymd2ord_eq [OF da db] civil_less_def
    by blast
  finally show ?thesis .
qed


text \<open>
  C6 (as amended). For two aware values with the same offset (and four-digit years),
  the timestamp of the first is lexicographically smaller than that of the second
  exactly when the first, cut to whole seconds, is earlier than the second, cut to
  whole seconds. Across different offsets the strings do not follow the instants, and
  within one second the strings are equal.
\<close>

theorem format_as_timestamp_order:
  "valid_datetime a \<Longrightarrow> valid_datetime b \<Longrightarrow>
   utcoffset a = Some off \<Longrightarrow> utcoffset b = Some off \<Longrightarrow>
   1000 \<le> year a \<Longrightarrow> 1000 \<le> year b \<Longrightarrow>
   format_as_timestamp a < format_as_timestamp b \<longleftrightarrow>
   earlier (whole_second a) (whole_second b)"
proof -
  assume v: "valid_datetime a" "valid_datetime b"
    and o: "utcoffset a = Some off" "utcoffset b = Some off"
  from o have same: "utcoffset a = utcoffset b" by simp
  have "format_as_timestamp a < format_as_timestamp b \<longleftrightarrow> civil_less a b"
    using v same by (rule format_as_timestamp_less)
  also have "\<dots> \<longleftrightarrow> earlier (whole_second a) (whole_second b)"
    unfolding whole_second_def using v same by (rule earlier_seconds [symmetric])
  finally show ?thesis .
qed

definition at_utc :: datetime where
  "at_utc = \<lparr>year = 2020, month = 1, day = 1, hour = 0, minute = 0, second = 0,
     microsecond = 0, utcoffset = Some 0\<rparr>"

definition at_plus5 :: datetime where
  "at_plus5 = \<lparr>year = 2020, month = 1, day = 1, hour = 1, minute = 0, second = 0,
     microsecond = 0, utcoffset = Some 18000000000\<rparr>"

definition half_past :: datetime where
  "half_past = at_utc\<lparr>microsecond := 500000\<rparr>"

definition next_second :: datetime where
  "next_second = at_utc\<lparr>second := 1\<rparr>"

lemmas time_defs = at_utc_def at_plus5_def half_past_def next_second_def

lemma example_valid:
  "valid_datetime at_utc" "valid_datetime at_plus5" "valid_datetime half_past"
  "valid_datetime next_second" "valid_datetime demo_now"
  by (simp_all add: valid_datetime_def time_defs demo_now_def days_in_month_def is_leap_def)

lemma example_zfill:
  "zfill 4 2020 = ''2020''" "zfill 4 2024 = ''2024''"
  "zfill 2 0 = ''00''" "zfill 2 1 = ''01''" "zfill 2 3 = ''03''" "zfill 2 5 = ''05''"
  "zfill 2 12 = ''12''" "zfill 2 (Suc 0) = ''01''"
  by (simp_all add: zfill2 zfill4 digit_char_def)

lemma example_format:
  "format_as_timestamp at_utc = ''2020-01-01T00:00:00+00:00''"
  "format_as_timestamp at_plus5 = ''2020-01-01T01:00:00+05:00''"
  "format_as_timestamp half_past = ''2020-01-01T00:00:00+00:00''"
  "format_as_timestamp next_second = ''2020-01-01T00:00:01+00:00''"
  by (simp_all add: format_as_timestamp_def strftime_def strftime_z_def time_defs example_zfill
        Let_def)

lemma example_instants:
  "utc_microseconds at_utc = 63713520000000000"
  "utc_microseconds at_plus5 = 63713505600000000"
  "utc_microseconds half_past = 63713520000500000"
  by (simp_all add: utc_microseconds_def civil_seconds_def ymd2ord_def days_before_year_def
        days_before_month_def is_leap_def time_defs)

theorem format_as_timestamp_order_counterexample:
  "earlier at_plus5 at_utc \<and>
   format_as_timestamp at_utc < format_as_timestamp at_plus5 \<and>
   earlier at_utc half_past \<and>
   format_as_timestamp at_utc = format_as_timestamp half_past"
  by (simp add: earlier_def example_instants example_format)

theorem format_as_timestamp_order_witness:
  "valid_datetime at_utc \<and> valid_datetime next_second \<and>
   utcoffset at_utc = Some 0 \<and> utcoffset next_second = Some 0 \<and>
   1000 \<le> year at_utc \<and> 1000 \<le> year next_second \<and>
   format_as_timestamp at_utc < format_as_timestamp next_second \<and>
   earlier (whole_second at_utc) (whole_second next_second)"
proof -
  have o: "utcoffset at_utc = Some 0" "utcoffset next_second = Some 0"
    and y: "1000 \<le> year at_utc" "1000 \<le> year next_second"
    by (simp_all add: time_defs)
  have l: "format_as_timestamp at_utc < format_as_timestamp next_second"
    by (simp add: example_format)
  from format_as_timestamp_order [OF example_valid(1) example_valid(4) o y] l
  have "earlier (whole_second at_utc) (whole_second next_second)"
    by simp
  with example_valid o y l show ?thesis by simp
qed

section \<open>Eviction by age\<close>






















































end
